theory Spec2Isabelle
  imports Complex_Main "HOL-Library.Sublist"
begin

section \<open>Python primitives used by the operator\<close>

text \<open>
  The operator works on Python 3 \<open>str\<close> values. They are modelled as \<open>string\<close>; a
  \<open>char\<close> stands for a code point below 256. The exceptions the parsing helpers can
  raise are values of \<open>error\<close>, and a helper that can raise returns \<open>error + 'a\<close>.
\<close>

datatype error = KeyError | IndexError | ValueError | OverflowError

text \<open>
  \<open>str.isspace\<close> on one character, which is also what \<open>\s\<close> matches in a \<open>str\<close>
  pattern and what \<open>str.strip()\<close> removes: TAB, LF, VT, FF, CR, the four separators
  0x1C..0x1F, SPACE, NEL (0x85) and NBSP (0xA0).
\<close>

definition isspace :: "char \<Rightarrow> bool" where
  "isspace c = (c \<in> set [CHR 0x09, CHR 0x0A, CHR 0x0B, CHR 0x0C, CHR 0x0D,
                        CHR 0x1C, CHR 0x1D, CHR 0x1E, CHR 0x1F, CHR 0x20, CHR 0x85, CHR 0xA0])"

text \<open>\<open>s.strip()\<close>: leading and trailing whitespace removed.\<close>

definition strip :: "string \<Rightarrow> string" where
  "strip s = rev (dropWhile isspace (rev (dropWhile isspace s)))"

text \<open>
  \<open>s.split(sep)\<close> for a non-empty separator: the pieces between the non-overlapping
  occurrences of \<open>sep\<close>, found from the left. The result always has at least one piece.
  (Python raises on an empty separator; every call in the operator passes a literal of
  one or three characters.)
\<close>

fun split_on :: "string \<Rightarrow> string \<Rightarrow> string list" where
  "split_on sep [] = [[]]"
| "split_on sep (c # cs) =
     (if prefix sep (c # cs) then [] # split_on sep (drop (length sep - 1) cs)
      else (case split_on sep cs of
              [] \<Rightarrow> [[c]]
            | p # ps \<Rightarrow> (c # p) # ps))"

text \<open>
  \<open>int(s)\<close> on a string, as in Python 3.6 to 3.10: surrounding whitespace is ignored, one
  sign is allowed, and the rest must be decimal digits, where single underscores may
  separate digit groups. Anything else raises \<open>ValueError\<close>, here \<open>None\<close>. The
  whitespace that \<open>int\<close> ignores is TAB, LF, VT, FF, CR, SPACE, NEL and NBSP; the
  separators 0x1C..0x1F, which \<open>strip\<close> removes, make \<open>int\<close> fail.
\<close>

definition int_space :: "char \<Rightarrow> bool" where
  "int_space c = (c \<in> set [CHR 0x09, CHR 0x0A, CHR 0x0B, CHR 0x0C, CHR 0x0D,
                          CHR 0x20, CHR 0x85, CHR 0xA0])"

definition isdigit :: "char \<Rightarrow> bool" where
  "isdigit c = (c \<in> set ''0123456789'')"

definition digit_val :: "char \<Rightarrow> int" where
  "digit_val c = int (of_char c) - 48"

definition digits_val :: "string \<Rightarrow> int" where
  "digits_val ds = foldl (\<lambda>acc c. 10 * acc + digit_val c) 0 ds"

definition parse_digits :: "string \<Rightarrow> int option" where
  "parse_digits s =
     (let groups = split_on ''_'' s
      in if list_all (\<lambda>g. g \<noteq> [] \<and> list_all isdigit g) groups
         then Some (digits_val (concat groups)) else None)"

definition py_int :: "string \<Rightarrow> int option" where
  "py_int s =
     (case rev (dropWhile int_space (rev (dropWhile int_space s))) of
        [] \<Rightarrow> None
      | c # cs \<Rightarrow>
          if c = CHR ''-'' then map_option uminus (parse_digits cs)
          else if c = CHR ''+'' then parse_digits cs
          else parse_digits (c # cs))"

section \<open>The regular expressions of the operator\<close>

text \<open>
  The three patterns passed to \<open>re.sub\<close> use only literal characters, the dot, \<open>\s+\<close>
  and a top-level alternation. A pattern is the list of its alternatives, in the order
  written; an alternative is a sequence of atoms.
\<close>

datatype atom =
    Lit char    \<comment> \<open>a literal character\<close>
  | Dot         \<comment> \<open>\<open>.\<close>: any character except line feed\<close>
  | Spaces      \<comment> \<open>\<open>\s+\<close>: one or more whitespace characters, greedy\<close>

type_synonym regex = "atom list list"

text \<open>
  Matching an alternative at the start of the input gives the rest of the input after
  the match. \<open>\s+\<close> first tries to take more whitespace and gives characters back only
  when the rest of the alternative then fails.
\<close>

fun match_seq :: "atom list \<Rightarrow> string \<Rightarrow> string option" where
  "match_seq [] s = Some s"
| "match_seq (a # as) [] = None"
| "match_seq (Lit c # as) (x # xs) = (if x = c then match_seq as xs else None)"
| "match_seq (Dot # as) (x # xs) = (if x \<noteq> CHR 0x0A then match_seq as xs else None)"
| "match_seq (Spaces # as) (x # xs) =
     (if isspace x
      then (case match_seq (Spaces # as) xs of
              Some r \<Rightarrow> Some r
            | None \<Rightarrow> match_seq as xs)
      else None)"

text \<open>Alternatives are tried in order; the first that matches wins.\<close>

fun match_alt :: "regex \<Rightarrow> string \<Rightarrow> string option" where
  "match_alt [] s = None"
| "match_alt (alt # alts) s =
     (case match_seq alt s of
        Some r \<Rightarrow> Some r
      | None \<Rightarrow> match_alt alts s)"

text \<open>
  \<open>re.sub(pattern, repl, s)\<close> with a plain replacement: every non-overlapping match,
  found from the left, is replaced. An empty match puts the replacement in front of the
  next character, which is then copied.
\<close>

fun re_sub :: "regex \<Rightarrow> string \<Rightarrow> string \<Rightarrow> string" where
  "re_sub rx repl [] = (case match_alt rx [] of Some r \<Rightarrow> repl | None \<Rightarrow> [])"
| "re_sub rx repl (c # cs) =
     (case match_alt rx (c # cs) of
        None \<Rightarrow> c # re_sub rx repl cs
      | Some r \<Rightarrow>
          if length r < length (c # cs) then repl @ re_sub rx repl r
          else repl @ c # re_sub rx repl cs)"

section \<open>Decoding one raw search string\<close>

text \<open>
  A decoded search is the dictionary \<open>search_dict\<close>: field name to string value.
\<close>

type_synonym search = "string \<rightharpoonup> string"

definition recognized :: "string list" where
  "recognized = [''search_id'', ''enabled'', ''clicks'', ''type'', ''listings_sent'', ''recommended'']"

text \<open>The separator \<open>'\\n-'\<close>: a backslash, the letter n and a dash.\<close>

definition search_sep :: string where
  "search_sep = [CHR 0x5C, CHR ''n'', CHR ''-'']"

text \<open>The pattern \<open>r'(\\.n|\\.n\s+:|\\)'\<close>.\<close>

definition rx_escapes :: regex where
  "rx_escapes = [[Lit (CHR 0x5C), Dot, Lit CHR ''n''],
                 [Lit (CHR 0x5C), Dot, Lit CHR ''n'', Spaces, Lit CHR '':''],
                 [Lit (CHR 0x5C)]]"

text \<open>The pattern \<open>r'\s+:'\<close>.\<close>

definition rx_space_colon :: regex where
  "rx_space_colon = [[Spaces, Lit CHR '':'']]"

text \<open>
  The first half of \<open>valid_searches\<close>: the raw string becomes one list of tokens for
  each search that is kept.
\<close>

definition parse_searches :: "string \<Rightarrow> string list list" where
  "parse_searches raw =
     (let searches = split_on search_sep raw;
          searches = filter (\<lambda>item. \<not> prefix ''---'' item) searches
      in if length searches = 0 then []
         else
           (let searches = filter (\<lambda>item. \<not> prefix ''---'' item) searches;
                searches = map (re_sub rx_escapes '' '') searches;
                searches = map (re_sub rx_space_colon '','') searches
            in map (split_on '','') searches))"

text \<open>
  The body of \<open>for key in item\<close>. \<open>key.split(':')\<close> cuts at every colon; element 0
  is compared with the six names as it is, and element 1 is read only then. Reading
  element 1 of a one-element list raises \<open>IndexError\<close>.
\<close>

definition store_token :: "string \<Rightarrow> search \<Rightarrow> error + search" where
  "store_token key search_dict =
     (case split_on '':'' key of
        [] \<Rightarrow> Inl IndexError
      | d_key # rest \<Rightarrow>
          if d_key \<in> set recognized
          then (case rest of
                  [] \<Rightarrow> Inl IndexError
                | v # _ \<Rightarrow> Inr (search_dict(d_key \<mapsto> strip v)))
          else Inr search_dict)"

fun build_dict :: "string list \<Rightarrow> search \<Rightarrow> error + search" where
  "build_dict [] search_dict = Inr search_dict"
| "build_dict (key # keys) search_dict =
     (case store_token key search_dict of
        Inl e \<Rightarrow> Inl e
      | Inr d \<Rightarrow> build_dict keys d)"

text \<open>
  \<open>int(search_dict.get('clicks', 0))\<close>: the integer 0 when the field is absent.
\<close>

definition clicks_of :: "search \<Rightarrow> int option" where
  "clicks_of search_dict =
     (case search_dict ''clicks'' of None \<Rightarrow> Some 0 | Some c \<Rightarrow> py_int c)"

text \<open>
  The condition \<open>search_dict['enabled'] == 'true' and int(...) >= 3\<close>. Indexing a
  missing key raises \<open>KeyError\<close>; \<open>and\<close> evaluates the clicks only when the first
  operand holds. The source breaks the condition after \<open>and\<close>; the two lines are read
  as the one condition they spell.
\<close>

definition is_valid :: "search \<Rightarrow> error + bool" where
  "is_valid search_dict =
     (case search_dict ''enabled'' of
        None \<Rightarrow> Inl KeyError
      | Some en \<Rightarrow>
          if en = ''true''
          then (case clicks_of search_dict of
                  None \<Rightarrow> Inl ValueError
                | Some n \<Rightarrow> Inr (3 \<le> n))
          else Inr False)"

text \<open>
  The loop \<open>for item in searches\<close>, with the list \<open>valid_searches\<close> it appends to.
\<close>

fun valid_loop :: "string list list \<Rightarrow> search list \<Rightarrow> error + search list" where
  "valid_loop [] valid = Inr valid"
| "valid_loop (item # items) valid =
     (case build_dict item Map.empty of
        Inl e \<Rightarrow> Inl e
      | Inr search_dict \<Rightarrow>
          (case is_valid search_dict of
             Inl e \<Rightarrow> Inl e
           | Inr ok \<Rightarrow> valid_loop items (if ok then valid @ [search_dict] else valid)))"

definition valid_searches :: "string \<Rightarrow> error + search list" where
  "valid_searches searches = valid_loop (parse_searches searches) []"

section \<open>Aggregates over the valid searches of one user\<close>

text \<open>
  \<open>avg_listings_sent\<close> returns the integer 0 or the value of the numpy expression
  \<open>np.round(np.sum(listings)/num_listings, 2)\<close>. numpy is not part of the operator and
  its float64 arithmetic is not modelled: the operations on floats are parameters, over
  any type \<open>'f\<close> of float values. \<open>round_quot listings num_listings\<close> stands for the
  expression above, with the exception it may raise (a sum too large for a float);
  \<open>as_float\<close> stands for the conversion of an integer cell when pandas makes a column
  of mixed cells a float column.
\<close>

record 'f float_ops =
  round_quot :: "int \<Rightarrow> nat \<Rightarrow> error + 'f"
  as_float :: "int \<Rightarrow> 'f"

datatype 'f number = PyInt int | NpFloat 'f

text \<open>
  \<open>if item.get('listings_sent')\<close> holds when the field is present and its string is
  not empty.
\<close>

fun listings_loop :: "search list \<Rightarrow> nat \<Rightarrow> int \<Rightarrow> error + (nat \<times> int)" where
  "listings_loop [] num_listings listings = Inr (num_listings, listings)"
| "listings_loop (item # items) num_listings listings =
     (case item ''listings_sent'' of
        None \<Rightarrow> listings_loop items num_listings listings
      | Some v \<Rightarrow>
          if v = [] then listings_loop items num_listings listings
          else (case py_int v of
                  None \<Rightarrow> Inl ValueError
                | Some n \<Rightarrow> listings_loop items (num_listings + 1) (listings + n)))"

definition avg_listings_sent :: "'f float_ops \<Rightarrow> search list \<Rightarrow> error + 'f number" where
  "avg_listings_sent np valid =
     (case listings_loop valid 0 0 of
        Inl e \<Rightarrow> Inl e
      | Inr (num_listings, listings) \<Rightarrow>
          if num_listings > 0
          then (case round_quot np listings num_listings of
                  Inl e \<Rightarrow> Inl e
                | Inr x \<Rightarrow> Inr (NpFloat x))
          else Inr (PyInt 0))"

fun type_loop :: "search list \<Rightarrow> nat \<Rightarrow> nat \<Rightarrow> nat \<times> nat" where
  "type_loop [] rental sale = (rental, sale)"
| "type_loop (item # items) rental sale =
     (if item ''type'' = Some ''Rental'' then type_loop items (rental + 1) sale
      else if item ''type'' = Some ''Sale'' then type_loop items rental (sale + 1)
      else type_loop items rental sale)"

definition type_of_search :: "search list \<Rightarrow> string" where
  "type_of_search valid =
     (case type_loop valid 0 0 of
        (rental, sale) \<Rightarrow>
          if rental > 0 \<and> sale > 0 then ''rental_and_sale''
          else if rental > 0 then ''rental''
          else if sale > 0 then ''sale''
          else ''none'')"

fun id_loop :: "search list \<Rightarrow> string list \<Rightarrow> string list" where
  "id_loop [] search_list = search_list"
| "id_loop (item # items) search_list =
     (case item ''search_id'' of
        None \<Rightarrow> id_loop items search_list
      | Some v \<Rightarrow>
          if v = [] then id_loop items search_list
          else id_loop items (search_list @ [v]))"

definition list_of_valid_searches :: "search list \<Rightarrow> string list" where
  "list_of_valid_searches valid = id_loop valid []"

section \<open>The transformation in \<open>execute\<close>\<close>

text \<open>
  The data frame read from the source file is a list of rows \<open>(user_id, searches)\<close>.
  \<open>Series.apply\<close> calls the function on each cell in order; an exception in one cell
  ends the run.
\<close>

fun apply_cells :: "('a \<Rightarrow> error + 'b) \<Rightarrow> 'a list \<Rightarrow> error + 'b list" where
  "apply_cells f [] = Inr []"
| "apply_cells f (x # xs) =
     (case f x of
        Inl e \<Rightarrow> Inl e
      | Inr y \<Rightarrow> (case apply_cells f xs of Inl e \<Rightarrow> Inl e | Inr ys \<Rightarrow> Inr (y # ys)))"

record ('u, 'f) summary =
  col_user_id :: 'u
  col_num_valid_searches :: nat
  col_avg_listings :: "'f number"
  col_type_of_search :: string
  col_list_of_valid_searches :: "string list"

text \<open>
  The cells that \<open>apply\<close> returns become a column. When the cells of \<open>avg_listings\<close>
  are integers and floats together, pandas makes the column a float column and the
  integers floats; a column of integers only stays as it is.
\<close>

definition is_float :: "'f number \<Rightarrow> bool" where
  "is_float x = (case x of PyInt i \<Rightarrow> False | NpFloat f \<Rightarrow> True)"

definition infer_column :: "'f float_ops \<Rightarrow> 'f number list \<Rightarrow> 'f number list" where
  "infer_column np cells =
     (if list_ex is_float cells
      then map (\<lambda>x. case x of PyInt i \<Rightarrow> NpFloat (as_float np i) | NpFloat f \<Rightarrow> NpFloat f) cells
      else cells)"

text \<open>The pattern \<open>r'\''\<close>: one single quote.\<close>

definition rx_quote :: regex where
  "rx_quote = [[Lit (CHR 0x27)]]"

text \<open>
  The Python set \<open>unique_valid_searches\<close> is kept as a list without repetitions;
  \<open>add\<close> leaves it unchanged when the element is already there. Python does not fix
  the order in which \<open>list(...)\<close> enumerates the set; the order here is one of them.
\<close>

definition set_add :: "'a \<Rightarrow> 'a list \<Rightarrow> 'a list" where
  "set_add x xs = (if x \<in> set xs then xs else xs @ [x])"

fun unique_loop :: "string list list \<Rightarrow> string list \<Rightarrow> string list" where
  "unique_loop [] unique = unique"
| "unique_loop (sub_list # rest) unique =
     unique_loop rest (foldl (\<lambda>u item. set_add (re_sub rx_quote [] item) u) unique sub_list)"

text \<open>
  The result of \<open>execute\<close>: the column of the unique-search table and the rows of the
  summary table, or the exception that ended the run.
\<close>

definition execute ::
  "'f float_ops \<Rightarrow> ('u \<times> string) list \<Rightarrow> error + (string list \<times> ('u, 'f) summary list)" where
  "execute np data =
     (case apply_cells (\<lambda>row. valid_searches (snd row)) data of
        Inl e \<Rightarrow> Inl e
      | Inr valid_col \<Rightarrow>
          (let data = zip (map fst data) valid_col;
               data = filter (\<lambda>row. length (snd row) > 0) data
           in case apply_cells (\<lambda>row. avg_listings_sent np (snd row)) data of
                Inl e \<Rightarrow> Inl e
              | Inr avg_cells \<Rightarrow>
                  (let table = map (\<lambda>(row, avg).
                         \<lparr> col_user_id = fst row,
                           col_num_valid_searches = length (snd row),
                           col_avg_listings = avg,
                           col_type_of_search = type_of_search (snd row),
                           col_list_of_valid_searches = list_of_valid_searches (snd row) \<rparr>)
                         (zip data (infer_column np avg_cells));
                       unique_valid_searches =
                         unique_loop (map col_list_of_valid_searches table) []
                   in Inr (unique_valid_searches, table))))"

section \<open>Notions used in the statements\<close>

text \<open>
  The definitions whose name starts with \<open>spec\<close> follow the sentences of the
  specification, not the source. The others describe a result in another way than the
  source computes it. The theorems compare both kinds with the source's functions.
\<close>

text \<open>
  ``Ordered sequence of \<open>search_id\<close> for valid searches that have that field'': a search
  has the field when the key is in its dictionary.
\<close>

definition spec_list_of_valid_searches :: "search list \<Rightarrow> string list" where
  "spec_list_of_valid_searches valid =
     map (\<lambda>item. the (item ''search_id'')) (filter (\<lambda>item. item ''search_id'' \<noteq> None) valid)"

text \<open>
  ``A record for which \<open>enabled == "true"\<close> and numeric(\<open>clicks\<close>) \<open>\<ge>\<close> 3'', the clicks
  counting as 0 when the field is absent.
\<close>

definition spec_valid :: "search \<Rightarrow> bool" where
  "spec_valid d =
     (d ''enabled'' = Some ''true'' \<and>
      (case d ''clicks'' of
         None \<Rightarrow> 3 \<le> (0::int)
       | Some c \<Rightarrow> (case py_int c of None \<Rightarrow> False | Some n \<Rightarrow> 3 \<le> n)))"

text \<open>
  The decoded record sequence of a raw string: the dictionary of every chunk, when all
  of them can be built.
\<close>

definition decoded_records :: "string \<Rightarrow> error + search list" where
  "decoded_records raw = apply_cells (\<lambda>item. build_dict item Map.empty) (parse_searches raw)"

text \<open>
  The records on which the validity check raises nothing: \<open>enabled\<close> is present, and
  when it is \<open>true\<close> the \<open>clicks\<close> field is absent or an integer literal.
\<close>

definition checkable :: "search \<Rightarrow> bool" where
  "checkable d =
     (d ''enabled'' \<noteq> None \<and>
      (d ''enabled'' = Some ''true'' \<longrightarrow>
         (case d ''clicks'' of None \<Rightarrow> True | Some c \<Rightarrow> py_int c \<noteq> None)))"

text \<open>The decimal numeral of a natural number, without leading zeros.\<close>

fun decimal :: "nat \<Rightarrow> string" where
  "decimal n =
     (if n < 10 then [''0123456789'' ! n]
      else decimal (n div 10) @ [''0123456789'' ! (n mod 10)])"

declare decimal.simps [simp del]

text \<open>
  For the examples, a float is kept as the numpy expression that gives it, unevaluated.
\<close>

datatype sym_float = Round_Quot int nat | As_Float int

definition sym_ops :: "sym_float float_ops" where
  "sym_ops = \<lparr> round_quot = (\<lambda>listings num_listings. Inr (Round_Quot listings num_listings)),
               as_float = As_Float \<rparr>"



text \<open>
  ``For each token, split on the first colon; if the key (trimmed) is one of the six
  recognized field names, store the key with the stripped value; unrecognized keys are
  silently ignored'', the value being everything after the first colon.
\<close>

definition spec_store_token :: "string \<Rightarrow> search \<Rightarrow> search" where
  "spec_store_token tok search_dict =
     (let key = strip (takeWhile (\<lambda>c. c \<noteq> CHR '':'') tok);
          val = drop 1 (dropWhile (\<lambda>c. c \<noteq> CHR '':'') tok)
      in if key \<in> set recognized then search_dict(key \<mapsto> strip val) else search_dict)"

text \<open>
  ``Replace any occurrence of the literal sequences \<open>\.n\<close>, \<open>\.n\<close> followed by whitespace
  then a colon, or a lone backslash with a single space'': the dot read as the character
  it is. The rest of the decoder's first half is as in the source.
\<close>

definition spec_rx_escapes :: regex where
  "spec_rx_escapes = [[Lit (CHR 0x5C), Lit CHR ''.'', Lit CHR ''n''],
                      [Lit (CHR 0x5C), Lit CHR ''.'', Lit CHR ''n'', Spaces, Lit CHR '':''],
                      [Lit (CHR 0x5C)]]"

definition spec_parse_searches :: "string \<Rightarrow> string list list" where
  "spec_parse_searches raw =
     (let chunks = filter (\<lambda>item. \<not> prefix ''---'' item) (split_on search_sep raw)
      in if chunks = [] then []
         else map (\<lambda>chunk. split_on '','' (re_sub rx_space_colon '',''
                                              (re_sub spec_rx_escapes '' '' chunk))) chunks)"

text \<open>
  The first substitution described by a scan from the left: a backslash, any character
  but line feed and the letter n become one space; any other backslash becomes one space;
  every other character stays.
\<close>

fun blank_escapes :: "string \<Rightarrow> string" where
  "blank_escapes [] = []"
| "blank_escapes (c # x # y # r) =
     (if c = CHR 0x5C \<and> x \<noteq> CHR 0x0A \<and> y = CHR ''n'' then CHR '' '' # blank_escapes r
      else (if c = CHR 0x5C then CHR '' '' else c) # blank_escapes (x # y # r))"
| "blank_escapes (c # cs) = (if c = CHR 0x5C then CHR '' '' else c) # blank_escapes cs"

text \<open>
  The second substitution described by a scan from the left: a run of whitespace that
  ends at a colon becomes, with the colon, one comma; every other character stays.
\<close>

function comma_colons :: "string \<Rightarrow> string" where
  "comma_colons [] = []"
| "comma_colons (c # cs) =
     (if isspace c
      then (case dropWhile isspace cs of
              [] \<Rightarrow> c # comma_colons cs
            | d # r \<Rightarrow> if d = CHR '':'' then CHR '','' # comma_colons r
                       else c # comma_colons cs)
      else c # comma_colons cs)"
  by pat_completeness auto
termination
proof (relation "measure length")
  fix c :: char and cs d r
  assume "dropWhile isspace cs = d # r"
  then have "length (d # r) \<le> length cs"
    by (metis length_dropWhile_le)
  then show "(r, c # cs) \<in> measure length" by simp
qed auto

text \<open>\<open>sep.join(pieces)\<close>.\<close>

fun join :: "string \<Rightarrow> string list \<Rightarrow> string" where
  "join sep [] = []"
| "join sep [p] = p"
| "join sep (p # q # ps) = p @ sep @ join sep (q # ps)"

section \<open>Basic facts about the primitives\<close>

lemmas decode_defs = valid_searches_def parse_searches_def search_sep_def rx_escapes_def
  rx_space_colon_def store_token_def recognized_def strip_def isspace_def is_valid_def
  clicks_of_def py_int_def int_space_def parse_digits_def isdigit_def digits_val_def
  digit_val_def

lemma split_on_nonempty: "split_on sep s \<noteq> []"
  by (induction s) (auto split: list.splits)

lemma split_on_absent: "c \<notin> set s \<Longrightarrow> split_on [c] s = [s]"
  by (induction s) auto

lemma digit_val_nth: "n < 10 \<Longrightarrow> digit_val (''0123456789'' ! n) = int n"
proof -
  assume "n < 10"
  then have "n \<in> {0, 1, 2, 3, 4, 5, 6, 7, 8, 9}"
    by auto
  then show ?thesis
    by (auto simp: digit_val_def)
qed

lemma digit_nth_isdigit: "n < 10 \<Longrightarrow> isdigit (''0123456789'' ! n)"
  unfolding isdigit_def by (rule nth_mem) simp

lemma decimal_nonempty: "decimal n \<noteq> []"
  by (subst decimal.simps) simp

lemma decimal_isdigit: "c \<in> set (decimal n) \<Longrightarrow> isdigit c"
proof (induction n arbitrary: c rule: decimal.induct)
  case (1 n)
  show ?case
  proof (cases "n < 10")
    case True
    then have "decimal n = [''0123456789'' ! n]"
      by (subst decimal.simps) simp
    then show ?thesis
      using "1.prems" True digit_nth_isdigit by simp
  next
    case False
    then have d: "decimal n = decimal (n div 10) @ [''0123456789'' ! (n mod 10)]"
      by (subst decimal.simps) simp
    have "isdigit (''0123456789'' ! (n mod 10))"
      by (rule digit_nth_isdigit) simp
    then show ?thesis
      using "1.prems" "1.IH"[OF False] unfolding d by auto
  qed
qed

lemma digits_val_decimal: "digits_val (decimal n) = int n"
proof (induction n rule: decimal.induct)
  case (1 n)
  show ?case
  proof (cases "n < 10")
    case True
    then have "decimal n = [''0123456789'' ! n]"
      by (subst decimal.simps) simp
    then show ?thesis
      using True by (simp add: digits_val_def digit_val_nth)
  next
    case False
    then have d: "decimal n = decimal (n div 10) @ [''0123456789'' ! (n mod 10)]"
      by (subst decimal.simps) simp
    have "digits_val (decimal n) = 10 * digits_val (decimal (n div 10)) + int (n mod 10)"
      unfolding d by (simp add: digits_val_def digit_val_nth)
    also have "\<dots> = 10 * int (n div 10) + int (n mod 10)"
      using "1.IH"[OF False] by simp
    also have "\<dots> = int n"
      by presburger
    finally show ?thesis .
  qed
qed

lemma isdigit_plain:
  "isdigit c \<Longrightarrow> \<not> int_space c \<and> c \<noteq> CHR ''-'' \<and> c \<noteq> CHR ''+'' \<and> c \<noteq> CHR ''_''"
  by (auto simp: isdigit_def int_space_def)

lemma dropWhile_hd: "xs \<noteq> [] \<Longrightarrow> \<not> P (hd xs) \<Longrightarrow> dropWhile P xs = xs"
  by (cases xs) auto

lemma py_int_digits:
  assumes "s \<noteq> []" and "\<forall>c\<in>set s. isdigit c"
  shows "py_int s = Some (digits_val s)"
proof -
  have h: "\<not> int_space (hd s)" and l: "\<not> int_space (last s)"
    using assms isdigit_plain by (simp_all add: hd_in_set)
  have 1: "dropWhile int_space s = s"
    using assms(1) h by (rule dropWhile_hd)
  have 2: "dropWhile int_space (rev s) = rev s"
    using assms(1) l by (intro dropWhile_hd) (simp_all add: hd_rev)
  have 3: "rev (dropWhile int_space (rev (dropWhile int_space s))) = s"
    unfolding 1 2 by simp
  obtain c cs where s: "s = c # cs"
    using assms(1) by (cases s) auto
  have sign: "c \<noteq> CHR ''-''" "c \<noteq> CHR ''+''"
    using assms(2) isdigit_plain unfolding s by auto
  have "CHR ''_'' \<notin> set s"
    using assms(2) isdigit_plain by blast
  then have 4: "split_on ''_'' s = [s]"
    by (rule split_on_absent)
  have 5: "parse_digits s = Some (digits_val s)"
    unfolding parse_digits_def 4 using assms by (simp add: list_all_iff)
  show ?thesis
    unfolding py_int_def 3 using sign 5 unfolding s by simp
qed

lemma py_int_decimal: "py_int (decimal n) = Some (int n)"
  using py_int_digits[of "decimal n"] decimal_nonempty decimal_isdigit digits_val_decimal
  by auto

section \<open>Errors while decoding\<close>

lemma store_token_bare_name:
  assumes "tok \<in> set recognized"
  shows "store_token tok d = Inl IndexError"
proof -
  have "CHR '':'' \<notin> set tok"
    using assms by (auto simp: recognized_def)
  then have "split_on '':'' tok = [tok]"
    by (rule split_on_absent)
  then show ?thesis
    using assms by (simp add: store_token_def)
qed

lemma store_token_error: "store_token tok d = Inl e \<Longrightarrow> e = IndexError"
  by (auto simp: store_token_def split: list.splits if_splits)

lemma build_dict_error: "build_dict item d = Inl e \<Longrightarrow> e = IndexError"
  by (induction item arbitrary: d) (auto split: sum.splits dest: store_token_error)

lemma build_dict_bare_name:
  "tok \<in> set item \<Longrightarrow> tok \<in> set recognized \<Longrightarrow> build_dict item d = Inl IndexError"
proof (induction item arbitrary: d)
  case Nil
  then show ?case by simp
next
  case (Cons key keys)
  show ?case
  proof (cases "store_token key d")
    case (Inl e)
    then show ?thesis using store_token_error by fastforce
  next
    case (Inr d')
    then have "tok \<noteq> key"
      using Cons.prems(2) store_token_bare_name by fastforce
    then show ?thesis
      using Cons Inr by simp
  qed
qed

lemma valid_loop_build_fails:
  "item \<in> set items \<Longrightarrow> build_dict item Map.empty = Inl e \<Longrightarrow> \<exists>e'. valid_loop items acc = Inl e'"
  by (induction items arbitrary: acc) (auto split: sum.splits)

lemma valid_loop_check_fails:
  "item \<in> set items \<Longrightarrow> build_dict item Map.empty = Inr d \<Longrightarrow> is_valid d = Inl e
     \<Longrightarrow> \<exists>e'. valid_loop items acc = Inl e'"
  by (induction items arbitrary: acc) (auto split: sum.splits)

lemma apply_cells_fails:
  "x \<in> set xs \<Longrightarrow> f x = Inl e \<Longrightarrow> \<exists>e'. apply_cells f xs = Inl e'"
  by (induction xs) (auto split: sum.splits)

lemma execute_fails:
  assumes "(u, s) \<in> set data" "valid_searches s = Inl e"
  shows "\<exists>e'. execute np data = Inl e'"
proof -
  obtain e' where "apply_cells (\<lambda>row. valid_searches (snd row)) data = Inl e'"
    using apply_cells_fails[of "(u, s)" data "\<lambda>row. valid_searches (snd row)" e] assms
    by auto
  then show ?thesis by (simp add: execute_def)
qed

text \<open>
  Claim C2. A decoded record without the \<open>enabled\<close> field is not skipped: the validity
  check raises \<open>KeyError\<close>, so \<open>valid_searches\<close> raises on a raw string with such a
  record, and so does the whole run on a table with such a row.
\<close>

theorem missing_enabled_is_fatal:
  assumes "item \<in> set (parse_searches s)"
    and "build_dict item Map.empty = Inr d"
    and "d ''enabled'' = None"
    and "(u, s) \<in> set data"
  shows "is_valid d = Inl KeyError \<and> (\<exists>e. valid_searches s = Inl e) \<and> (\<exists>e. execute np data = Inl e)"
proof -
  have k: "is_valid d = Inl KeyError"
    using assms(3) by (simp add: is_valid_def)
  from valid_loop_check_fails[OF assms(1,2) k]
  obtain e where e: "valid_searches s = Inl e"
    unfolding valid_searches_def by blast
  from execute_fails[OF assms(4) e] k e show ?thesis by blast
qed

theorem missing_enabled_is_fatal_witness:
  "[''clicks:5''] \<in> set (parse_searches ''clicks:5'') \<and>
   build_dict [''clicks:5''] Map.empty = Inr [''clicks'' \<mapsto> ''5''] \<and>
   [''clicks'' \<mapsto> ''5''] ''enabled'' = None \<and>
   is_valid [''clicks'' \<mapsto> ''5''] = Inl KeyError \<and>
   (\<exists>e. valid_searches ''clicks:5'' = Inl e) \<and>
   (\<exists>e. execute sym_ops [(7::nat, ''clicks:5'')] = Inl e)"
proof -
  have a: "[''clicks:5''] \<in> set (parse_searches ''clicks:5'')"
    by (simp add: decode_defs)
  have b: "build_dict [''clicks:5''] Map.empty = Inr [''clicks'' \<mapsto> ''5'']"
    by (simp add: decode_defs)
  have c: "[''clicks'' \<mapsto> ''5''] ''enabled'' = None"
    by simp
  have d: "(7::nat, ''clicks:5'') \<in> set [(7, ''clicks:5'')]"
    by simp
  show ?thesis
    using a b c missing_enabled_is_fatal [OF a b c d] by blast
qed

text \<open>
  Claim C10. Decoding is not total: when a token of a chunk is exactly one of the six
  field names, it has no colon, \<open>key.split(':')\<close> has one element, and reading element 1
  raises \<open>IndexError\<close>; \<open>valid_searches\<close> then raises on that raw string.
\<close>

theorem bare_field_name_fails:
  assumes "item \<in> set (parse_searches s)"
    and "tok \<in> set item"
    and "tok \<in> set recognized"
  shows "build_dict item Map.empty = Inl IndexError \<and> (\<exists>e. valid_searches s = Inl e)"
proof -
  have b: "build_dict item Map.empty = Inl IndexError"
    using assms(2,3) by (rule build_dict_bare_name)
  from valid_loop_build_fails[OF assms(1) b] b show ?thesis
    unfolding valid_searches_def by blast
qed

theorem bare_field_name_fails_witness:
  "[''search_id:1'', ''enabled''] \<in> set (parse_searches ''search_id:1,enabled'') \<and>
   ''enabled'' \<in> set [''search_id:1'', ''enabled''] \<and>
   ''enabled'' \<in> set recognized \<and>
   build_dict [''search_id:1'', ''enabled''] Map.empty = Inl IndexError \<and>
   valid_searches ''search_id:1,enabled'' = Inl IndexError"
proof -
  have a: "[''search_id:1'', ''enabled''] \<in> set (parse_searches ''search_id:1,enabled'')"
    by (simp add: decode_defs)
  have b: "''enabled'' \<in> set [''search_id:1'', ''enabled'']"
    by simp
  have c: "''enabled'' \<in> set recognized"
    by (simp add: recognized_def)
  have d: "valid_searches ''search_id:1,enabled'' = Inl IndexError"
    by (simp add: decode_defs)
  show ?thesis
    using a b c d bare_field_name_fails [OF a b c] by blast
qed

section \<open>The aggregates\<close>

lemma type_loop_count:
  "type_loop valid rental sale =
     (rental + length (filter (\<lambda>item. item ''type'' = Some ''Rental'') valid),
      sale + length (filter (\<lambda>item. item ''type'' = Some ''Sale'') valid))"
  by (induction valid arbitrary: rental sale) auto

text \<open>
  Claim C5. \<open>type_of_search\<close> depends only on how many valid searches have the type
  \<open>Rental\<close> and how many have the type \<open>Sale\<close>, compared as they are: both positive gives
  \<open>rental_and_sale\<close>, only the first \<open>rental\<close>, only the second \<open>sale\<close>, neither
  \<open>none\<close>. A search with another type or without the field adds to neither count.
\<close>

theorem type_of_search_counts:
  "type_of_search valid =
     (let rental = length (filter (\<lambda>item. item ''type'' = Some ''Rental'') valid);
          sale = length (filter (\<lambda>item. item ''type'' = Some ''Sale'') valid)
      in if rental > 0 \<and> sale > 0 then ''rental_and_sale''
         else if rental > 0 then ''rental''
         else if sale > 0 then ''sale''
         else ''none'')"
  by (simp add: type_of_search_def type_loop_count Let_def)

theorem type_of_search_counts_witness:
  "type_of_search [[''type'' \<mapsto> ''Rental'']] = ''rental'' \<and>
   type_of_search [[''type'' \<mapsto> ''Rental''], [''type'' \<mapsto> ''Sale'']] = ''rental_and_sale'' \<and>
   type_of_search [[''type'' \<mapsto> ''Sale''], Map.empty] = ''sale'' \<and>
   type_of_search [] = ''none'' \<and>
   type_of_search [[''type'' \<mapsto> ''rental''], [''clicks'' \<mapsto> ''4'']] = ''none''"
  using type_of_search_counts [of "[[''type'' \<mapsto> ''Rental'']]"]
    type_of_search_counts [of "[[''type'' \<mapsto> ''Rental''], [''type'' \<mapsto> ''Sale'']]"]
    type_of_search_counts [of "[[''type'' \<mapsto> ''Sale''], Map.empty]"]
    type_of_search_counts [of "[]"]
    type_of_search_counts [of "[[''type'' \<mapsto> ''rental''], [''clicks'' \<mapsto> ''4'']]"]
  by simp

lemma id_loop_filter:
  "id_loop valid acc =
     acc @ map (\<lambda>item. the (item ''search_id''))
             (filter (\<lambda>item. \<exists>v. item ''search_id'' = Some v \<and> v \<noteq> []) valid)"
  by (induction valid arbitrary: acc) (auto split: option.splits)

text \<open>
  Claim C9, as the specification states it, fails: a valid search whose \<open>search_id\<close> is
  the empty string has the field, and \<open>list_of_valid_searches\<close> skips it.
\<close>

theorem list_of_valid_searches_counterexample:
  "list_of_valid_searches [[''search_id'' \<mapsto> '''', ''enabled'' \<mapsto> ''true'', ''clicks'' \<mapsto> ''3'']] = [] \<and>
   spec_list_of_valid_searches [[''search_id'' \<mapsto> '''', ''enabled'' \<mapsto> ''true'', ''clicks'' \<mapsto> ''3'']] = ['''']"
  by (simp add: list_of_valid_searches_def spec_list_of_valid_searches_def)

text \<open>
  Claim C9, amended. \<open>list_of_valid_searches\<close> returns the \<open>search_id\<close> values of exactly
  the valid searches whose \<open>search_id\<close> is present and not the empty string, in the order
  of the valid searches; the other searches are skipped and nothing stands in for them.
\<close>

theorem list_of_valid_searches_nonempty_ids:
  "list_of_valid_searches valid =
     map (\<lambda>item. the (item ''search_id''))
       (filter (\<lambda>item. \<exists>v. item ''search_id'' = Some v \<and> v \<noteq> []) valid)"
  by (simp add: list_of_valid_searches_def id_loop_filter)

theorem list_of_valid_searches_nonempty_ids_witness:
  "list_of_valid_searches
     [[''search_id'' \<mapsto> ''7''], [''clicks'' \<mapsto> ''4''], [''search_id'' \<mapsto> ''''], [''search_id'' \<mapsto> ''3'']]
   = [''7'', ''3'']"
  using list_of_valid_searches_nonempty_ids
    [of "[[''search_id'' \<mapsto> ''7''], [''clicks'' \<mapsto> ''4''], [''search_id'' \<mapsto> ''''], [''search_id'' \<mapsto> ''3'']]"]
  by simp

section \<open>The validity filter\<close>

lemma is_valid_Inr: "is_valid d = Inr b \<longleftrightarrow> checkable d \<and> b = spec_valid d"
  by (auto simp: is_valid_def clicks_of_def checkable_def spec_valid_def split: option.splits)

lemma apply_cells_Cons_Inr:
  "apply_cells f (x # xs) = Inr ys \<longleftrightarrow>
     (\<exists>y ys'. f x = Inr y \<and> apply_cells f xs = Inr ys' \<and> ys = y # ys')"
  by (cases "f x"; cases "apply_cells f xs") auto

lemma valid_loop_filter:
  "valid_loop items acc = Inr vs \<longleftrightarrow>
     (\<exists>ds. apply_cells (\<lambda>item. build_dict item Map.empty) items = Inr ds \<and>
           (\<forall>d\<in>set ds. checkable d) \<and> vs = acc @ filter spec_valid ds)"
proof (induction items arbitrary: acc)
  case Nil
  then show ?case by auto
next
  case (Cons item items)
  let ?build = "\<lambda>item. build_dict item Map.empty"
  show ?case
  proof (cases "build_dict item Map.empty")
    case (Inl e)
    then show ?thesis by simp
  next
    case (Inr d)
    show ?thesis
    proof (cases "is_valid d")
      case (Inl e)
      have "\<not> checkable d"
      proof
        assume "checkable d"
        then have "is_valid d = Inr (spec_valid d)"
          by (simp add: is_valid_Inr)
        with Inl show False by simp
      qed
      moreover have "valid_loop (item # items) acc = Inl e"
        using Inr Inl by simp
      ultimately show ?thesis
        using Inr by (auto split: sum.splits)
    next
      case ok: (Inr b)
      then have c: "checkable d" and b: "b = spec_valid d"
        using is_valid_Inr by blast+
      let ?acc = "if b then acc @ [d] else acc"
      have step: "valid_loop (item # items) acc = valid_loop items ?acc"
        using Inr ok by simp
      have acc: "\<And>ds. ?acc @ filter spec_valid ds = acc @ filter spec_valid (d # ds)"
        using b by simp
      have "(\<exists>ds. apply_cells ?build (item # items) = Inr ds \<and>
                (\<forall>d\<in>set ds. checkable d) \<and> vs = acc @ filter spec_valid ds) \<longleftrightarrow>
            (\<exists>ds. apply_cells ?build items = Inr ds \<and>
                (\<forall>d\<in>set ds. checkable d) \<and> vs = acc @ filter spec_valid (d # ds))"
        (is "?L \<longleftrightarrow> ?R")
      proof
        assume ?L
        then obtain ds where ds: "apply_cells ?build (item # items) = Inr ds"
          "\<forall>d\<in>set ds. checkable d" "vs = acc @ filter spec_valid ds" by blast
        from ds(1) obtain ds' where ds': "apply_cells ?build items = Inr ds'" "ds = d # ds'"
          unfolding apply_cells_Cons_Inr using Inr by auto
        with ds(2,3) show ?R by auto
      next
        assume ?R
        then obtain ds where ds: "apply_cells ?build items = Inr ds"
          "\<forall>d\<in>set ds. checkable d" "vs = acc @ filter spec_valid (d # ds)" by blast
        have "apply_cells ?build (item # items) = Inr (d # ds)"
          unfolding apply_cells_Cons_Inr using Inr ds(1) by auto
        moreover have "\<forall>x\<in>set (d # ds). checkable x"
          using c ds(2) by simp
        ultimately show ?L using ds(3) by blast
      qed
      then show ?thesis
        unfolding step Cons.IH[of ?acc] acc by simp
    qed
  qed
qed

text \<open>
  Claim C1. \<open>valid_searches\<close> returns a list exactly when every chunk decodes to a
  record and the validity check raises on none of them; the list is then the decoded
  records filtered by the two predicates (\<open>enabled\<close> equal to the string \<open>true\<close>, and
  clicks, 0 when absent, at least 3), in their order. So every record it returns satisfies
  both. On one record with \<open>enabled\<close> equal to \<open>true\<close>, the check says no when \<open>clicks\<close>
  is absent, and when \<open>clicks\<close> is the decimal numeral of \<open>n\<close> it says whether \<open>n\<close> is at
  least 3; with another \<open>enabled\<close> value it says no.
\<close>

theorem valid_searches_keeps_exactly_valid:
  "(valid_searches s = Inr vs \<longleftrightarrow>
      (\<exists>ds. decoded_records s = Inr ds \<and> (\<forall>d\<in>set ds. checkable d) \<and> vs = filter spec_valid ds)) \<and>
   (valid_searches s = Inr vs \<longrightarrow> (\<forall>d\<in>set vs. spec_valid d)) \<and>
   (d ''enabled'' = Some ''true'' \<and> d ''clicks'' = None \<longrightarrow> is_valid d = Inr False) \<and>
   (d ''enabled'' = Some ''true'' \<and> d ''clicks'' = Some (decimal n) \<longrightarrow> is_valid d = Inr (3 \<le> n)) \<and>
   (d ''enabled'' = Some en \<and> en \<noteq> ''true'' \<longrightarrow> is_valid d = Inr False)"
proof -
  have "valid_loop (parse_searches s) [] = Inr vs \<longleftrightarrow>
      (\<exists>ds. apply_cells (\<lambda>item. build_dict item Map.empty) (parse_searches s) = Inr ds \<and>
            (\<forall>d\<in>set ds. checkable d) \<and> vs = [] @ filter spec_valid ds)"
    by (rule valid_loop_filter)
  then have eq: "valid_searches s = Inr vs \<longleftrightarrow>
      (\<exists>ds. decoded_records s = Inr ds \<and> (\<forall>d\<in>set ds. checkable d) \<and> vs = filter spec_valid ds)"
    by (simp only: valid_searches_def decoded_records_def append_Nil)
  have all: "\<forall>d\<in>set vs. spec_valid d" if "valid_searches s = Inr vs"
  proof -
    from that eq obtain ds where "vs = filter spec_valid ds" by blast
    then show ?thesis by simp
  qed
  have absent: "is_valid d = Inr False" if "d ''enabled'' = Some ''true''" "d ''clicks'' = None"
    using that by (simp add: is_valid_def clicks_of_def)
  have numeral: "is_valid d = Inr (3 \<le> n)"
    if "d ''enabled'' = Some ''true''" "d ''clicks'' = Some (decimal n)"
    using that by (simp add: is_valid_def clicks_of_def py_int_decimal)
  have other: "is_valid d = Inr False" if "d ''enabled'' = Some en" "en \<noteq> ''true''"
    using that by (simp add: is_valid_def)
  from eq all absent numeral other show ?thesis by blast
qed

theorem valid_searches_keeps_exactly_valid_witness:
  "valid_searches (''enabled:true,clicks:5'' @ search_sep @ ''enabled:true,clicks:2''
                    @ search_sep @ ''enabled:false,clicks:10'' @ search_sep @ ''enabled:true'')
     = Inr [[''enabled'' \<mapsto> ''true'', ''clicks'' \<mapsto> ''5'']] \<and>
   (\<exists>ds. decoded_records (''enabled:true,clicks:5'' @ search_sep @ ''enabled:true,clicks:2''
                    @ search_sep @ ''enabled:false,clicks:10'' @ search_sep @ ''enabled:true'') = Inr ds \<and>
         (\<forall>d\<in>set ds. checkable d) \<and>
         [[''enabled'' \<mapsto> ''true'', ''clicks'' \<mapsto> ''5'']] = filter spec_valid ds) \<and>
   spec_valid [''enabled'' \<mapsto> ''true'', ''clicks'' \<mapsto> ''5''] \<and>
   is_valid [''enabled'' \<mapsto> ''true''] = Inr False \<and>
   is_valid [''enabled'' \<mapsto> ''true'', ''clicks'' \<mapsto> ''5''] = Inr True \<and>
   is_valid [''enabled'' \<mapsto> ''true'', ''clicks'' \<mapsto> ''2''] = Inr False \<and>
   is_valid [''enabled'' \<mapsto> ''true'', ''clicks'' \<mapsto> ''12''] = Inr True \<and>
   is_valid [''enabled'' \<mapsto> ''false'', ''clicks'' \<mapsto> ''10''] = Inr False \<and>
   is_valid [''enabled'' \<mapsto> ''True'', ''clicks'' \<mapsto> ''10''] = Inr False"
proof -
  let ?s = "''enabled:true,clicks:5'' @ search_sep @ ''enabled:true,clicks:2''
              @ search_sep @ ''enabled:false,clicks:10'' @ search_sep @ ''enabled:true''"
  let ?d = "[''enabled'' \<mapsto> ''true'', ''clicks'' \<mapsto> ''5'']"
  have a: "valid_searches ?s = Inr [?d]"
    by (simp add: decode_defs)
  note t = valid_searches_keeps_exactly_valid [of ?s "[?d]"]
  from t a have b: "\<exists>ds. decoded_records ?s = Inr ds \<and> (\<forall>d\<in>set ds. checkable d) \<and>
      [?d] = filter spec_valid ds"
    by blast
  from t a have "\<forall>d\<in>set [?d]. spec_valid d"
    by blast
  then have c: "spec_valid ?d"
    by simp
  have n: "decimal 5 = ''5''" "decimal 2 = ''2''" "decimal 12 = ''12''"
    by (simp_all add: decimal.simps)
  have 1: "is_valid [''enabled'' \<mapsto> ''true''] = Inr False"
    using valid_searches_keeps_exactly_valid [of _ _ "[''enabled'' \<mapsto> ''true'']"]
    by simp
  have 2: "is_valid ?d = Inr True"
    using valid_searches_keeps_exactly_valid [of _ _ ?d 5] n
    by simp
  have 3: "is_valid [''enabled'' \<mapsto> ''true'', ''clicks'' \<mapsto> ''2''] = Inr False"
    using valid_searches_keeps_exactly_valid
      [of _ _ "[''enabled'' \<mapsto> ''true'', ''clicks'' \<mapsto> ''2'']" 2] n
    by simp
  have 4: "is_valid [''enabled'' \<mapsto> ''true'', ''clicks'' \<mapsto> ''12''] = Inr True"
    using valid_searches_keeps_exactly_valid
      [of _ _ "[''enabled'' \<mapsto> ''true'', ''clicks'' \<mapsto> ''12'']" 12] n
    by simp
  have 5: "is_valid [''enabled'' \<mapsto> ''false'', ''clicks'' \<mapsto> ''10''] = Inr False"
    using valid_searches_keeps_exactly_valid
      [of _ _ "[''enabled'' \<mapsto> ''false'', ''clicks'' \<mapsto> ''10'']" _ "''false''"]
    by simp
  have 6: "is_valid [''enabled'' \<mapsto> ''True'', ''clicks'' \<mapsto> ''10''] = Inr False"
    using valid_searches_keeps_exactly_valid
      [of _ _ "[''enabled'' \<mapsto> ''True'', ''clicks'' \<mapsto> ''10'']" _ "''True''"]
    by simp
  from a b c 1 2 3 4 5 6 show ?thesis by blast
qed

section \<open>The two output tables\<close>

lemma apply_cells_all2:
  "apply_cells f xs = Inr ys \<longleftrightarrow> list_all2 (\<lambda>x y. f x = Inr y) xs ys"
proof (induction xs arbitrary: ys)
  case Nil
  then show ?case by auto
next
  case (Cons x xs)
  show ?case
    unfolding apply_cells_Cons_Inr Cons.IH by (auto simp: list_all2_Cons1)
qed

lemma filter_zip_all2:
  "list_all2 (\<lambda>x y. f x = Inr y) xs ys \<Longrightarrow>
     map fst (filter (\<lambda>row. P (snd row)) (zip (map g xs) ys)) =
     map g (filter (\<lambda>x. \<exists>y. f x = Inr y \<and> P y) xs)"
  by (induction xs ys rule: list_all2_induct) auto

lemma execute_Inr:
  assumes "execute np data = Inr (unique, table)"
  shows "\<exists>valid_col kept avg_col.
           list_all2 (\<lambda>row v. valid_searches (snd row) = Inr v) data valid_col \<and>
           kept = filter (\<lambda>row. length (snd row) > 0) (zip (map fst data) valid_col) \<and>
           length avg_col = length kept \<and>
           table = map (\<lambda>(row, avg).
                         \<lparr> col_user_id = fst row,
                           col_num_valid_searches = length (snd row),
                           col_avg_listings = avg,
                           col_type_of_search = type_of_search (snd row),
                           col_list_of_valid_searches = list_of_valid_searches (snd row) \<rparr>)
                     (zip kept avg_col) \<and>
           unique = unique_loop (map col_list_of_valid_searches table) []"
proof -
  obtain valid_col where v: "apply_cells (\<lambda>row. valid_searches (snd row)) data = Inr valid_col"
    using assms by (cases "apply_cells (\<lambda>row. valid_searches (snd row)) data") (auto simp: execute_def)
  let ?kept = "filter (\<lambda>row. length (snd row) > 0) (zip (map fst data) valid_col)"
  obtain avg_cells where
    a: "apply_cells (\<lambda>row. avg_listings_sent np (snd row)) ?kept = Inr avg_cells"
    using assms v by (cases "apply_cells (\<lambda>row. avg_listings_sent np (snd row)) ?kept")
      (auto simp: execute_def Let_def)
  have "length avg_cells = length ?kept"
    using a unfolding apply_cells_all2 by (simp add: list_all2_lengthD)
  then have l: "length (infer_column np avg_cells) = length ?kept"
    by (simp add: infer_column_def)
  have v': "list_all2 (\<lambda>row v. valid_searches (snd row) = Inr v) data valid_col"
    using v unfolding apply_cells_all2 .
  have tb: "table = map (\<lambda>(row, avg).
                         \<lparr> col_user_id = fst row,
                           col_num_valid_searches = length (snd row),
                           col_avg_listings = avg,
                           col_type_of_search = type_of_search (snd row),
                           col_list_of_valid_searches = list_of_valid_searches (snd row) \<rparr>)
                     (zip ?kept (infer_column np avg_cells))"
    using assms v a by (auto simp: execute_def Let_def)
  have un: "unique = unique_loop (map col_list_of_valid_searches table) []"
    using assms v a by (auto simp: execute_def Let_def)
  from v' l tb un show ?thesis
    by blast
qed

lemma parse_empty_valid: "parse_searches s = [] \<Longrightarrow> valid_searches s = Inr []"
  by (simp add: valid_searches_def)

text \<open>
  Claim C6. When the run completes, the summary table has one row for each input row
  whose list of valid searches is not empty, in the input's order, and no other row: a
  row with zero valid searches is left out, not filled with nulls. A raw string with no
  chunk left to decode is not an error: \<open>valid_searches\<close> returns the empty list.
\<close>

theorem zero_valid_rows_excluded:
  assumes "execute np data = Inr (unique, table)"
  shows "map col_user_id table
           = map fst (filter (\<lambda>row. valid_searches (snd row) \<noteq> Inr []) data) \<and>
         (\<forall>r\<in>set table. col_num_valid_searches r > 0) \<and>
         (\<forall>row\<in>set data. parse_searches (snd row) = [] \<longrightarrow> valid_searches (snd row) = Inr [])"
proof -
  from execute_Inr[OF assms] obtain valid_col kept avg_col where
    v: "list_all2 (\<lambda>row v. valid_searches (snd row) = Inr v) data valid_col" and
    k: "kept = filter (\<lambda>row. length (snd row) > 0) (zip (map fst data) valid_col)" and
    a: "length avg_col = length kept" and
    t: "table = map (\<lambda>(row, avg).
                         \<lparr> col_user_id = fst row,
                           col_num_valid_searches = length (snd row),
                           col_avg_listings = avg,
                           col_type_of_search = type_of_search (snd row),
                           col_list_of_valid_searches = list_of_valid_searches (snd row) \<rparr>)
                     (zip kept avg_col)"
    by blast
  have 1: "map col_user_id table = map fst (map fst (zip kept avg_col))"
    unfolding t by (simp add: case_prod_beta comp_def)
  have 2: "map fst (zip kept avg_col) = kept"
    using a by simp
  have 3: "map fst kept = map fst (filter (\<lambda>row. \<exists>y. valid_searches (snd row) = Inr y \<and> length y > 0) data)"
    unfolding k using filter_zip_all2[OF v, of "\<lambda>y. length y > 0" fst] by simp
  have 4: "(\<exists>y. valid_searches (snd row) = Inr y \<and> length y > 0) \<longleftrightarrow> valid_searches (snd row) \<noteq> Inr []"
    if "row \<in> set data" for row
  proof -
    from v that obtain y where "valid_searches (snd row) = Inr y"
      by (auto simp: list_all2_conv_all_nth in_set_conv_nth)
    then show ?thesis by auto
  qed
  have 5: "filter (\<lambda>row. \<exists>y. valid_searches (snd row) = Inr y \<and> length y > 0) data
         = filter (\<lambda>row. valid_searches (snd row) \<noteq> Inr []) data"
    by (rule filter_cong[OF refl]) (use 4 in blast)
  have A: "map col_user_id table = map fst (filter (\<lambda>row. valid_searches (snd row) \<noteq> Inr []) data)"
    using 1 2 3 5 by simp
  have B: "\<forall>r\<in>set table. col_num_valid_searches r > 0"
  proof
    fix r assume "r \<in> set table"
    then obtain row avg where "(row, avg) \<in> set (zip kept avg_col)"
      and r: "col_num_valid_searches r = length (snd row)"
      unfolding t by auto
    then have "row \<in> set kept"
      by (meson in_set_zipE)
    then show "col_num_valid_searches r > 0"
      unfolding k r by simp
  qed
  have C: "\<forall>row\<in>set data. parse_searches (snd row) = [] \<longrightarrow> valid_searches (snd row) = Inr []"
    using parse_empty_valid by blast
  from A B C show ?thesis by blast
qed

lemmas execute_defs = execute_def avg_listings_sent_def type_of_search_def
  list_of_valid_searches_def set_add_def rx_quote_def infer_column_def is_float_def
  sym_ops_def

theorem zero_valid_rows_excluded_witness:
  "execute sym_ops [(1::nat, ''search_id:1,enabled:true,clicks:5,type:Rental,listings_sent:10''),
            (2, ''search_id:2,enabled:false,clicks:1''),
            (3, ''---'')]
     = Inr ([''1''],
            [\<lparr> col_user_id = 1, col_num_valid_searches = 1, col_avg_listings = NpFloat (Round_Quot 10 1),
               col_type_of_search = ''rental'', col_list_of_valid_searches = [''1''] \<rparr>]) \<and>
   valid_searches ''search_id:2,enabled:false,clicks:1'' = Inr [] \<and>
   parse_searches ''---'' = [] \<and>
   valid_searches ''---'' = Inr [] \<and>
   map fst (filter (\<lambda>row. valid_searches (snd row) \<noteq> Inr [])
      [(1::nat, ''search_id:1,enabled:true,clicks:5,type:Rental,listings_sent:10''),
       (2, ''search_id:2,enabled:false,clicks:1''),
       (3, ''---'')]) = [1]"
proof -
  let ?data = "[(1::nat, ''search_id:1,enabled:true,clicks:5,type:Rental,listings_sent:10''),
            (2, ''search_id:2,enabled:false,clicks:1''),
            (3, ''---'')]"
  let ?table = "[\<lparr> col_user_id = 1::nat, col_num_valid_searches = 1, col_avg_listings = NpFloat (Round_Quot 10 1),
               col_type_of_search = ''rental'', col_list_of_valid_searches = [''1''] \<rparr>]"
  have e: "execute sym_ops ?data = Inr ([''1''], ?table)"
    by (simp add: decode_defs execute_defs)
  have b: "valid_searches ''search_id:2,enabled:false,clicks:1'' = Inr []"
    by (simp add: decode_defs)
  have c: "parse_searches ''---'' = []"
    by (simp add: decode_defs)
  note t = zero_valid_rows_excluded [OF e]
  from t have "map fst (filter (\<lambda>row. valid_searches (snd row) \<noteq> Inr []) ?data) = map col_user_id ?table"
    by simp
  then have d: "map fst (filter (\<lambda>row. valid_searches (snd row) \<noteq> Inr []) ?data) = [1]"
    by simp
  from t c have f: "valid_searches ''---'' = Inr []"
    by simp
  from e b c d f show ?thesis by blast
qed

lemma re_sub_quote: "re_sub rx_quote [] s = filter (\<lambda>c. c \<noteq> CHR 0x27) s"
  by (induction s) (auto simp: rx_quote_def)

lemma set_add_props:
  "distinct u \<Longrightarrow> distinct (set_add x u)" "set (set_add x u) = insert x (set u)"
  by (auto simp: set_add_def)

lemma foldl_set_add:
  "distinct u \<Longrightarrow> distinct (foldl (\<lambda>u item. set_add (f item) u) u xs) \<and>
     set (foldl (\<lambda>u item. set_add (f item) u) u xs) = set u \<union> f ` set xs"
  by (induction xs arbitrary: u) (auto simp: set_add_props)

lemma unique_loop_props:
  "distinct u \<Longrightarrow> distinct (unique_loop ls u) \<and>
     set (unique_loop ls u) = set u \<union> (\<lambda>item. re_sub rx_quote [] item) ` (\<Union>l\<in>set ls. set l)"
proof (induction ls arbitrary: u)
  case Nil
  then show ?case by simp
next
  case (Cons l ls)
  let ?u = "foldl (\<lambda>u item. set_add (re_sub rx_quote [] item) u) u l"
  from foldl_set_add[OF Cons.prems, of "\<lambda>item. re_sub rx_quote [] item" l]
  have d: "distinct ?u" and s: "set ?u = set u \<union> (\<lambda>item. re_sub rx_quote [] item) ` set l"
    by blast+
  from Cons.IH[OF d] s show ?case
    by auto
qed

text \<open>
  Claim C7. When the run completes, the unique-search table has no repeated id, and its
  ids are exactly the ids of the \<open>list_of_valid_searches\<close> column of the summary table,
  each with every single quote removed.
\<close>

theorem unique_searches_stripped_distinct:
  assumes "execute np data = Inr (unique, table)"
  shows "distinct unique \<and>
         set unique = (\<lambda>item. filter (\<lambda>c. c \<noteq> CHR 0x27) item) `
                        (\<Union>r\<in>set table. set (col_list_of_valid_searches r))"
proof -
  from execute_Inr[OF assms]
  have u: "unique = unique_loop (map col_list_of_valid_searches table) []"
    by blast
  have "distinct ([] :: string list)" by simp
  from unique_loop_props[OF this, of "map col_list_of_valid_searches table"]
  show ?thesis
    unfolding u by (simp add: re_sub_quote)
qed

theorem unique_searches_stripped_distinct_witness:
  "execute sym_ops [(1::nat, ''search_id:abc'' @ [CHR 0x27] @ ''123,enabled:true,clicks:5''),
            (2, ''search_id:abc123,enabled:true,clicks:3'' @ search_sep @ ''search_id:9,enabled:true,clicks:4'')]
     = Inr ([''abc123'', ''9''],
            [\<lparr> col_user_id = 1, col_num_valid_searches = 1, col_avg_listings = PyInt 0,
               col_type_of_search = ''none'',
               col_list_of_valid_searches = [''abc'' @ [CHR 0x27] @ ''123''] \<rparr>,
             \<lparr> col_user_id = 2, col_num_valid_searches = 2, col_avg_listings = PyInt 0,
               col_type_of_search = ''none'',
               col_list_of_valid_searches = [''abc123'', ''9''] \<rparr>]) \<and>
   distinct [''abc123'', ''9''] \<and>
   set [''abc123'', ''9''] = (\<lambda>item. filter (\<lambda>c. c \<noteq> CHR 0x27) item) `
       (set [''abc'' @ [CHR 0x27] @ ''123''] \<union> set [''abc123'', ''9''])"
proof -
  let ?data = "[(1::nat, ''search_id:abc'' @ [CHR 0x27] @ ''123,enabled:true,clicks:5''),
            (2, ''search_id:abc123,enabled:true,clicks:3'' @ search_sep @ ''search_id:9,enabled:true,clicks:4'')]"
  let ?table = "[\<lparr> col_user_id = 1::nat, col_num_valid_searches = 1, col_avg_listings = PyInt 0,
               col_type_of_search = ''none'',
               col_list_of_valid_searches = [''abc'' @ [CHR 0x27] @ ''123''] \<rparr>,
             \<lparr> col_user_id = 2, col_num_valid_searches = 2, col_avg_listings = PyInt 0,
               col_type_of_search = ''none'',
               col_list_of_valid_searches = [''abc123'', ''9''] \<rparr>]"
  have e: "execute sym_ops ?data = Inr ([''abc123'', ''9''], ?table)"
    by (simp add: decode_defs execute_defs)
  from unique_searches_stripped_distinct [OF e] e show ?thesis
    by simp
qed

section \<open>The average of listings sent\<close>







section \<open>Storing one token\<close>

lemma split_on_char:
  "split_on [c] s =
     takeWhile (\<lambda>x. x \<noteq> c) s #
       (case dropWhile (\<lambda>x. x \<noteq> c) s of [] \<Rightarrow> [] | _ # r \<Rightarrow> split_on [c] r)"
  by (induction s) (auto split: list.splits)

text \<open>
  Claim C3, as the specification states it, fails on two tokens that the decoder
  produces. The key is compared untrimmed, so a token with a space in front of a field
  name is ignored; and the value ends at the second colon.
\<close>

theorem store_token_counterexample:
  "parse_searches ''search_id:1 : enabled:true,type:Sale:x''
     = [[''search_id:1'', '' enabled:true'', ''type:Sale:x'']] \<and>
   store_token '' enabled:true'' Map.empty = Inr Map.empty \<and>
   spec_store_token '' enabled:true'' Map.empty = [''enabled'' \<mapsto> ''true''] \<and>
   store_token ''type:Sale:x'' Map.empty = Inr [''type'' \<mapsto> ''Sale''] \<and>
   spec_store_token ''type:Sale:x'' Map.empty = [''type'' \<mapsto> ''Sale:x'']"
  by (simp add: decode_defs spec_store_token_def)

text \<open>
  Claim C3, amended. The key of a token is its text before the first colon, as it is.
  When the key is not one of the six field names the record is unchanged. When it is
  and the token has a colon, the record maps the key to the text between the first and
  the second colon (to the end of the token when there is no second), stripped. When it
  is and the token has no colon, \<open>IndexError\<close> is raised.
\<close>

theorem store_token_between_colons:
  "store_token tok d =
     (let key = takeWhile (\<lambda>c. c \<noteq> CHR '':'') tok;
          rest = dropWhile (\<lambda>c. c \<noteq> CHR '':'') tok
      in if key \<notin> set recognized then Inr d
         else if rest = [] then Inl IndexError
         else Inr (d(key \<mapsto> strip (takeWhile (\<lambda>c. c \<noteq> CHR '':'') (tl rest)))))"
proof -
  let ?P = "\<lambda>c. c \<noteq> CHR '':''"
  show ?thesis
  proof (cases "dropWhile ?P tok")
    case Nil
    have s: "split_on '':'' tok = [takeWhile ?P tok]"
      by (subst split_on_char) (simp only: Nil list.case)
    show ?thesis
      unfolding store_token_def s Let_def Nil by simp
  next
    case (Cons x r)
    define ps where "ps = (case dropWhile ?P r of [] \<Rightarrow> [] | _ # r' \<Rightarrow> split_on '':'' r')"
    have r: "split_on '':'' r = takeWhile ?P r # ps"
      unfolding ps_def by (rule split_on_char)
    have s: "split_on '':'' tok = takeWhile ?P tok # takeWhile ?P r # ps"
      by (subst split_on_char) (simp only: Cons list.case r)
    show ?thesis
      unfolding store_token_def s Let_def Cons by simp
  qed
qed

theorem store_token_between_colons_witness:
  "store_token ''clicks: 5 '' [''enabled'' \<mapsto> ''true'']
     = Inr [''enabled'' \<mapsto> ''true'', ''clicks'' \<mapsto> ''5''] \<and>
   store_token ''type:Sale:x'' Map.empty = Inr [''type'' \<mapsto> ''Sale''] \<and>
   store_token ''colour:red'' [''enabled'' \<mapsto> ''true''] = Inr [''enabled'' \<mapsto> ''true''] \<and>
   store_token '' enabled:true'' Map.empty = Inr Map.empty \<and>
   store_token ''recommended'' Map.empty = Inl IndexError"
  using store_token_between_colons [of "''clicks: 5 ''" "[''enabled'' \<mapsto> ''true'']"]
    store_token_between_colons [of "''type:Sale:x''" Map.empty]
    store_token_between_colons [of "''colour:red''" "[''enabled'' \<mapsto> ''true'']"]
    store_token_between_colons [of "'' enabled:true''" Map.empty]
    store_token_between_colons [of "''recommended''" Map.empty]
  by (simp add: recognized_def strip_def isspace_def)

section \<open>The first half of the decoder\<close>

lemma re_sub_escapes: "re_sub rx_escapes '' '' s = blank_escapes s"
  by (induction s rule: blank_escapes.induct) (auto simp: rx_escapes_def)

lemma colon_not_space: "\<not> isspace CHR '':''"
  by (simp add: isspace_def)

lemma match_space_colon:
  "match_seq [Spaces, Lit CHR '':''] (x # xs) =
     (if isspace x
      then (case dropWhile isspace xs of
              [] \<Rightarrow> None
            | d # r \<Rightarrow> if d = CHR '':'' then Some r else None)
      else None)"
proof (induction xs arbitrary: x)
  case Nil
  then show ?case by simp
next
  case (Cons y ys)
  have step: "match_seq [Spaces, Lit CHR '':''] (x # y # ys) =
     (if isspace x
      then (case match_seq [Spaces, Lit CHR '':''] (y # ys) of
              Some r \<Rightarrow> Some r
            | None \<Rightarrow> match_seq [Lit CHR '':''] (y # ys))
      else None)"
    by (rule match_seq.simps)
  have lit: "match_seq [Lit CHR '':''] (y # ys) = (if y = CHR '':'' then Some ys else None)"
    by simp
  show ?case
  proof (cases "isspace y")
    case True
    then have "y \<noteq> CHR '':''"
      using colon_not_space by blast
    then show ?thesis
      unfolding step lit Cons.IH[of y] using True by (simp split: list.splits)
  next
    case False
    then show ?thesis
      unfolding step lit Cons.IH[of y] by simp
  qed
qed

lemma re_sub_space_colon: "re_sub rx_space_colon '','' s = comma_colons s"
proof (induction "length s" arbitrary: s rule: less_induct)
  case less
  show ?case
  proof (cases s)
    case Nil
    then show ?thesis by (simp add: rx_space_colon_def)
  next
    case (Cons c cs)
    have m: "match_alt rx_space_colon (c # cs) = match_seq [Spaces, Lit CHR '':''] (c # cs)"
      by (simp add: rx_space_colon_def split: option.splits)
    have tail: "re_sub rx_space_colon '','' cs = comma_colons cs"
      using less[of cs] Cons by simp
    show ?thesis
    proof (cases "match_seq [Spaces, Lit CHR '':''] (c # cs)")
      case None
      have "comma_colons (c # cs) = c # comma_colons cs"
      proof (cases "isspace c")
        case False
        then show ?thesis by simp
      next
        case True
        show ?thesis
        proof (cases "dropWhile isspace cs")
          case Nil
          show ?thesis by (simp add: Nil)
        next
          case (Cons d r)
          have "d \<noteq> CHR '':''"
            using None unfolding match_space_colon by (simp add: True Cons split: if_splits)
          then show ?thesis by (simp add: Cons)
        qed
      qed
      then show ?thesis
        using Cons m None tail by simp
    next
      case (Some r)
      have c: "isspace c"
        using Some unfolding match_space_colon by (simp split: if_splits)
      have "dropWhile isspace cs \<noteq> []"
      proof
        assume e: "dropWhile isspace cs = []"
        show False
          using Some unfolding match_space_colon by (simp add: e c)
      qed
      then obtain d r' where dr: "dropWhile isspace cs = d # r'"
        by (cases "dropWhile isspace cs") auto
      have d: "dropWhile isspace cs = d # r" "d = CHR '':''"
        using Some unfolding match_space_colon by (simp_all add: dr c split: if_splits)
      have "length (d # r) \<le> length cs"
        by (metis d(1) length_dropWhile_le)
      then have l: "length r < length (c # cs)" by simp
      have "re_sub rx_space_colon '','' r = comma_colons r"
        using less[of r] l Cons by simp
      moreover have "comma_colons (c # cs) = CHR '','' # comma_colons r"
        by (simp add: c d)
      ultimately show ?thesis
        using Cons m Some l by simp
    qed
  qed
qed

lemma join_Cons_Cons: "join sep ((c # p) # ps) = c # join sep (p # ps)"
  by (cases ps) auto

lemma join_split_on: "sep \<noteq> [] \<Longrightarrow> join sep (split_on sep s) = s"
proof (induction sep s rule: split_on.induct)
  case (1 sep)
  then show ?case by simp
next
  case (2 sep c cs)
  show ?case
  proof (cases "prefix sep (c # cs)")
    case True
    then obtain rest where rest: "c # cs = sep @ rest"
      by (auto simp: prefix_def)
    have d: "drop (length sep - 1) cs = rest"
    proof -
      have "drop (length sep) (c # cs) = rest"
        using rest by simp
      then show ?thesis
        using "2.prems" by (cases sep) auto
    qed
    obtain q qs where q: "split_on sep rest = q # qs"
      using split_on_nonempty by (cases "split_on sep rest") auto
    have "join sep (split_on sep rest) = rest"
      using "2.IH"(1)[OF True "2.prems"] d by simp
    then have j: "join sep ([] # split_on sep rest) = sep @ rest"
      unfolding q by simp
    have "split_on sep (c # cs) = [] # split_on sep rest"
      using True d by simp
    then show ?thesis
      using j rest by (simp only:)
  next
    case False
    obtain p ps where p: "split_on sep cs = p # ps"
      using split_on_nonempty by (cases "split_on sep cs") auto
    have "join sep (p # ps) = cs"
      using "2.IH"(2)[OF False "2.prems"] p by simp
    then show ?thesis
      using False p by (simp add: join_Cons_Cons)
  qed
qed

lemma hd_split_on_prefix: "prefix (hd (split_on sep s)) s"
  by (induction sep s rule: split_on.induct) (auto split: list.splits)

lemma split_on_free:
  "sep \<noteq> [] \<Longrightarrow> p \<in> set (split_on sep s) \<Longrightarrow> \<not> sublist sep p"
proof (induction sep s arbitrary: p rule: split_on.induct)
  case (1 sep)
  then show ?case by simp
next
  case (2 sep c cs)
  show ?case
  proof (cases "prefix sep (c # cs)")
    case True
    then have "p = [] \<or> p \<in> set (split_on sep (drop (length sep - 1) cs))"
      using "2.prems"(2) by simp
    then show ?thesis
      using "2.IH"(1)[OF True "2.prems"(1)] "2.prems"(1) by auto
  next
    case False
    obtain q qs where q: "split_on sep cs = q # qs"
      using split_on_nonempty by (cases "split_on sep cs") auto
    have pq: "prefix q cs"
      using hd_split_on_prefix[of sep cs] q by simp
    from "2.prems"(2) False q have "p = c # q \<or> p \<in> set qs"
      by simp
    then show ?thesis
    proof
      assume p: "p = c # q"
      have "\<not> sublist sep q"
        using "2.IH"(2)[OF False "2.prems"(1), of q] q by simp
      moreover have "\<not> prefix sep (c # q)"
      proof
        assume "prefix sep (c # q)"
        moreover have "prefix (c # q) (c # cs)"
          using pq by simp
        ultimately have "prefix sep (c # cs)"
          by (rule prefix_order.trans)
        with False show False by simp
      qed
      ultimately show ?thesis
        unfolding p by (simp add: sublist_Cons_right)
    next
      assume "p \<in> set qs"
      then show ?thesis
        using "2.IH"(2)[OF False "2.prems"(1), of p] q by simp
    qed
  qed
qed

lemma sublist_single: "sublist [c] xs \<longleftrightarrow> c \<in> set xs"
  by (auto simp: sublist_def in_set_conv_decomp)

text \<open>
  Claim C8, as the specification states it, fails: the dot of the first pattern stands
  for any character, so a doubled backslash followed by n is one match and becomes one
  space; with a literal dot the two backslashes become two spaces and the n stays.
\<close>

theorem parse_searches_counterexample:
  "parse_searches (''enabled:true'' @ [CHR 0x5C, CHR 0x5C, CHR ''n''] @ '':clicks:5'')
     = [[''enabled:true'', ''clicks:5'']] \<and>
   spec_parse_searches (''enabled:true'' @ [CHR 0x5C, CHR 0x5C, CHR ''n''] @ '':clicks:5'')
     = [[''enabled:true  n:clicks:5'']]"
  by (simp add: decode_defs spec_parse_searches_def spec_rx_escapes_def)

text \<open>
  Claim C8, amended. The raw string is cut at every occurrence of the three characters
  backslash, n, dash: the chunks joined by that separator give the raw string back, and
  no chunk contains it. The chunks that start with three dashes are dropped; when none
  is left the result is empty. In each remaining chunk every backslash followed by any
  character but line feed and by n, and every other backslash, becomes one space (the
  alternative with whitespace and a colon never applies, the shorter one before it
  matching first); then every run of whitespace that ends at a colon becomes, with the
  colon, one comma; then the chunk is cut at every comma.
\<close>

theorem parse_searches_steps:
  "parse_searches raw =
     map (\<lambda>chunk. split_on '','' (comma_colons (blank_escapes chunk)))
       (filter (\<lambda>chunk. \<not> prefix ''---'' chunk) (split_on search_sep raw)) \<and>
   join search_sep (split_on search_sep raw) = raw \<and>
   (\<forall>chunk\<in>set (split_on search_sep raw). \<not> sublist search_sep chunk) \<and>
   join '','' (split_on '','' s) = s \<and>
   (\<forall>tok\<in>set (split_on '','' s). CHR '','' \<notin> set tok)"
proof -
  have sep: "search_sep \<noteq> []"
    by (simp add: search_sep_def)
  have 1: "parse_searches raw =
     map (\<lambda>chunk. split_on '','' (comma_colons (blank_escapes chunk)))
       (filter (\<lambda>chunk. \<not> prefix ''---'' chunk) (split_on search_sep raw))"
    by (simp add: parse_searches_def Let_def re_sub_escapes re_sub_space_colon comp_def)
  have 2: "join search_sep (split_on search_sep raw) = raw"
    using sep by (rule join_split_on)
  have 3: "\<forall>chunk\<in>set (split_on search_sep raw). \<not> sublist search_sep chunk"
    using split_on_free[OF sep] by blast
  have 4: "join '','' (split_on '','' s) = s"
    by (rule join_split_on) simp
  have 5: "\<forall>tok\<in>set (split_on '','' s). CHR '','' \<notin> set tok"
    using split_on_free[of "'',''" _ s] by (auto simp: sublist_single)
  from 1 2 3 4 5 show ?thesis by blast
qed

theorem parse_searches_steps_witness:
  "parse_searches (''--- x'' @ search_sep @ ''search_id:7'' @ [CHR 0x5C, CHR 0x5C, CHR ''n'']
                     @ '' :enabled:true'' @ [CHR 0x5C] @ '':clicks:4'')
     = [[''search_id:7'', ''enabled:true'', ''clicks:4'']] \<and>
   split_on search_sep (''--- x'' @ search_sep @ ''search_id:7'' @ [CHR 0x5C, CHR 0x5C, CHR ''n'']
                     @ '' :enabled:true'' @ [CHR 0x5C] @ '':clicks:4'')
     = [''--- x'', ''search_id:7'' @ [CHR 0x5C, CHR 0x5C, CHR ''n''] @ '' :enabled:true''
                     @ [CHR 0x5C] @ '':clicks:4''] \<and>
   \<not> sublist search_sep (''search_id:7'' @ [CHR 0x5C, CHR 0x5C, CHR ''n''] @ '' :enabled:true''
                     @ [CHR 0x5C] @ '':clicks:4'') \<and>
   split_on '','' ''search_id:7,enabled:true,clicks:4''
     = [''search_id:7'', ''enabled:true'', ''clicks:4''] \<and>
   join '','' [''search_id:7'', ''enabled:true'', ''clicks:4''] = ''search_id:7,enabled:true,clicks:4'' \<and>
   CHR '','' \<notin> set ''enabled:true''"
proof -
  let ?chunk = "''search_id:7'' @ [CHR 0x5C, CHR 0x5C, CHR ''n''] @ '' :enabled:true''
                  @ [CHR 0x5C] @ '':clicks:4''"
  let ?raw = "''--- x'' @ search_sep @ ?chunk"
  let ?s = "''search_id:7,enabled:true,clicks:4''"
  have a: "split_on search_sep ?raw = [''--- x'', ?chunk]"
    by (simp add: search_sep_def)
  have b: "split_on '','' ?s = [''search_id:7'', ''enabled:true'', ''clicks:4'']"
    by simp
  have c: "comma_colons (blank_escapes ?chunk) = ?s"
    by (simp add: isspace_def)
  note t = parse_searches_steps [of ?raw ?s, unfolded a b]
  from t have 1: "parse_searches ?raw = [[''search_id:7'', ''enabled:true'', ''clicks:4'']]"
    using b c by simp
  from t have "\<forall>chunk\<in>set [''--- x'', ?chunk]. \<not> sublist search_sep chunk"
    by blast
  then have 2: "\<not> sublist search_sep ?chunk"
    by (simp del: sublist_code)
  from t have 3: "join '','' [''search_id:7'', ''enabled:true'', ''clicks:4''] = ?s"
    by blast
  from t have "\<forall>tok\<in>set [''search_id:7'', ''enabled:true'', ''clicks:4'']. CHR '','' \<notin> set tok"
    by blast
  then have 4: "CHR '','' \<notin> set ''enabled:true''"
    by simp
  from 1 a 2 b 3 4 show ?thesis
    by blast
qed

end
